theory Spec2Isabelle
  imports Main
begin

section \<open>Set-associative cache with rank-based LRU replacement\<close>

text \<open>
  Shallow embedding of the classes \<open>Cache\<close> and \<open>Block\<close> of \<open>code.py\<close>.
  Python integers are \<open>int\<close>, strings are \<open>string\<close>, the two-dimensional list
  \<open>self.cache\<close> is a list of lists of blocks, and every exception the code can raise is
  a value of \<open>error\<close>. A method that mutates \<open>self\<close> takes the object and returns the
  updated one.
\<close>

subsection \<open>Data\<close>

datatype error = ValueError | ZeroDivisionError | IndexError | TypeError

record Block =
  tag :: string
  valid :: bool
  data :: string
  lru_counter :: int

record Cache =
  cache_size :: int
  block_size :: int
  associativity :: int
  sets :: int
  no_of_ind_bits :: int
  no_of_offset_bits :: int
  no_of_tag_bits :: int
  hit_count :: int
  miss_count :: int
  cache :: "Block list list"

subsection \<open>Python primitives used by the class\<close>

text \<open>
  \<open>int(log2(x))\<close>: \<open>math.log2\<close> raises \<open>ValueError\<close> (math domain error) for
  \<open>x \<le> 0\<close>; otherwise the result is truncated to an integer. The floating-point value
  is modelled by the exact floor of the binary logarithm, which is what the double
  computation yields for every argument below \<open>2 ^ 48\<close> and for every power of two.
\<close>

fun floor_log2 :: "nat \<Rightarrow> nat" where
  "floor_log2 n = (if n < 2 then 0 else Suc (floor_log2 (n div 2)))"

declare floor_log2.simps [simp del]

definition int_log2 :: "int \<Rightarrow> error + int" where
  "int_log2 x = (if x \<le> 0 then Inl ValueError else Inr (int (floor_log2 (nat x))))"

text \<open>
  Slicing \<open>s[a:b]\<close>: a negative bound counts from the end, and both bounds are clamped
  to \<open>0 .. len(s)\<close>; an empty range gives the empty string.
\<close>

definition py_bound :: "int \<Rightarrow> nat \<Rightarrow> nat" where
  "py_bound i n = (if i < 0 then nat (max (i + int n) 0) else min (nat i) n)"

definition py_slice :: "'a list \<Rightarrow> int \<Rightarrow> int \<Rightarrow> 'a list" where
  "py_slice s a b = (let st = py_bound a (length s); en = py_bound b (length s)
                     in take (en - st) (drop st s))"

text \<open>
  \<open>int(s, 2)\<close> on a string of the characters \<open>0\<close> and \<open>1\<close>: the empty string raises
  \<open>ValueError\<close>, otherwise the digits are read most significant first. Python also
  accepts a sign, a \<open>0b\<close> prefix, underscores and surrounding blanks; the model covers
  strings over \<open>0\<close> and \<open>1\<close> only and every theorem below that depends on a parsed value
  is stated for such addresses.
\<close>

definition binary_digit :: "char \<Rightarrow> bool" where
  "binary_digit ch \<longleftrightarrow> ch = CHR ''0'' \<or> ch = CHR ''1''"

definition int_base2 :: "string \<Rightarrow> error + nat" where
  "int_base2 s =
     (if s = [] \<or> \<not> list_all binary_digit s then Inl ValueError
      else Inr (foldl (\<lambda>acc ch. 2 * acc + (if ch = CHR ''1'' then 1 else 0)) 0 s))"

subsection \<open>Construction\<close>

text \<open>\<open>Block.__init__\<close>; the data field is a constant string that nothing reads.\<close>

definition Block_init :: "string \<Rightarrow> bool \<Rightarrow> int \<Rightarrow> Block" where
  "Block_init t v l = \<lparr>tag = t, valid = v, data = replicate 32 CHR ''0'', lru_counter = l\<rparr>"

text \<open>
  \<open>Cache.__init__\<close>. Integer division by zero raises \<open>ZeroDivisionError\<close>, the two
  logarithms raise \<open>ValueError\<close> on a non-positive argument, and nothing else is
  checked. \<open>'0' * n\<close> and \<open>range(n)\<close> are empty for negative \<open>n\<close>; the default
  \<open>lru_counter\<close> of a block is \<open>-1\<close>.
\<close>

definition Cache_init :: "int \<Rightarrow> int \<Rightarrow> int \<Rightarrow> error + Cache" where
  "Cache_init csize bsize assoc =
     (if bsize * assoc = 0 then Inl ZeroDivisionError
      else let nsets = csize div (bsize * assoc) in
        (case int_log2 nsets of
           Inl e \<Rightarrow> Inl e
         | Inr ib \<Rightarrow>
            (case int_log2 bsize of
               Inl e \<Rightarrow> Inl e
             | Inr ob \<Rightarrow>
                 Inr \<lparr>cache_size = csize, block_size = bsize, associativity = assoc,
                      sets = nsets, no_of_ind_bits = ib, no_of_offset_bits = ob,
                      no_of_tag_bits = 32 - ib - ob, hit_count = 0, miss_count = 0,
                      cache = replicate (nat nsets) (replicate (nat assoc)
                        (Block_init (replicate (nat (32 - ib - ob)) CHR ''0'') False (- 1)))\<rparr>)))"

subsection \<open>Address decomposition\<close>

definition extract_index :: "Cache \<Rightarrow> string \<Rightarrow> error + nat" where
  "extract_index c address =
     int_base2 (py_slice address (no_of_tag_bits c) (no_of_tag_bits c + no_of_ind_bits c))"

definition extract_tag :: "Cache \<Rightarrow> string \<Rightarrow> string" where
  "extract_tag c address = py_slice address 0 (no_of_tag_bits c)"

text \<open>\<open>address[-n:]\<close>: the stop bound is the length of the string.\<close>

definition extract_offset :: "Cache \<Rightarrow> string \<Rightarrow> error + nat" where
  "extract_offset c address =
     int_base2 (py_slice address (- no_of_offset_bits c) (int (length address)))"

subsection \<open>Recency update\<close>

text \<open>
  The two loops of \<open>lru_handling\<close>, on the blocks of one set. Each block is rewritten
  from its own counter and the fixed value \<open>cur\<close>, so the loop is a map.
\<close>

definition lru_hit :: "int \<Rightarrow> int \<Rightarrow> Block \<Rightarrow> Block" where
  "lru_hit assoc cur b =
     (if lru_counter b > cur then b\<lparr>lru_counter := lru_counter b - 1\<rparr>
      else if lru_counter b = cur then b\<lparr>lru_counter := assoc - 1\<rparr>
      else b)"

definition lru_miss :: "Block \<Rightarrow> Block" where
  "lru_miss b = b\<lparr>lru_counter := lru_counter b - 1\<rparr>"

text \<open>
  \<open>lru_handling\<close>. \<open>cur\<close> defaults to \<open>None\<close>; comparing a counter with \<open>None\<close> raises
  \<open>TypeError\<close>, which needs a block to compare.
\<close>

definition lru_handling :: "Cache \<Rightarrow> nat \<Rightarrow> bool \<Rightarrow> int option \<Rightarrow> error + Cache" where
  "lru_handling c set_index hit cur =
     (if length (cache c) \<le> set_index then Inl IndexError
      else if hit then
        (case cur of
           None \<Rightarrow> (if cache c ! set_index = [] then Inr c else Inl TypeError)
         | Some k \<Rightarrow> Inr (c\<lparr>cache := (cache c)[set_index :=
                          map (lru_hit (associativity c) k) (cache c ! set_index)]\<rparr>))
      else Inr (c\<lparr>cache := (cache c)[set_index := map lru_miss (cache c ! set_index)]\<rparr>))"

subsection \<open>Eviction and insertion\<close>

text \<open>
  Both loops of \<open>evictor\<close> overwrite the first block that passes a test and return;
  \<open>None\<close> means that the loop ran to its end without finding one.
\<close>

fun overwrite_first :: "(Block \<Rightarrow> bool) \<Rightarrow> string \<Rightarrow> int \<Rightarrow> Block list \<Rightarrow> Block list option" where
  "overwrite_first p t assoc [] = None"
| "overwrite_first p t assoc (b # bs) =
     (if p b then Some (b\<lparr>tag := t, valid := True, lru_counter := assoc\<rparr> # bs)
      else map_option ((#) b) (overwrite_first p t assoc bs))"

text \<open>
  \<open>evictor\<close>: first an invalid block, then a block whose counter is 0; when neither
  loop finds a block the method returns without a change.
\<close>

definition evictor :: "Cache \<Rightarrow> nat \<Rightarrow> string \<Rightarrow> nat \<Rightarrow> error + Cache" where
  "evictor c set_index t offset =
     (if length (cache c) \<le> set_index then Inl IndexError
      else case overwrite_first (\<lambda>b. \<not> valid b) t (associativity c) (cache c ! set_index) of
        Some s \<Rightarrow> Inr (c\<lparr>cache := (cache c)[set_index := s]\<rparr>)
      | None \<Rightarrow>
         (case overwrite_first (\<lambda>b. lru_counter b = 0) t (associativity c) (cache c ! set_index) of
            Some s \<Rightarrow> Inr (c\<lparr>cache := (cache c)[set_index := s]\<rparr>)
          | None \<Rightarrow> Inr c))"

subsection \<open>Access\<close>

text \<open>The scan of \<open>check\<close>: the first block of the set that holds the tag and is valid.\<close>

fun find_hit :: "string \<Rightarrow> Block list \<Rightarrow> Block option" where
  "find_hit t [] = None"
| "find_hit t (b # bs) = (if tag b = t \<and> valid b then Some b else find_hit t bs)"

text \<open>
  \<open>check\<close> returns the hit flag and the updated object. The index, the tag (which
  cannot raise) and the offset are extracted before anything is written, so a call that
  raises in an extraction leaves the object as it was.
\<close>

definition check :: "Cache \<Rightarrow> string \<Rightarrow> error + (bool \<times> Cache)" where
  "check c address =
     (case extract_index c address of
        Inl e \<Rightarrow> Inl e
      | Inr index \<Rightarrow>
         (case extract_offset c address of
            Inl e \<Rightarrow> Inl e
          | Inr offset \<Rightarrow>
              if length (cache c) \<le> index then Inl IndexError
              else
                (case find_hit (extract_tag c address) (cache c ! index) of
                   Some block \<Rightarrow>
                     (case lru_handling (c\<lparr>hit_count := hit_count c + 1\<rparr>) index True
                             (Some (lru_counter block)) of
                        Inl e \<Rightarrow> Inl e
                      | Inr c' \<Rightarrow> Inr (True, c'))
                 | None \<Rightarrow>
                     (case evictor (c\<lparr>miss_count := miss_count c + 1\<rparr>) index
                             (extract_tag c address) offset of
                        Inl e \<Rightarrow> Inl e
                      | Inr c1 \<Rightarrow>
                         (case lru_handling c1 index False None of
                            Inl e \<Rightarrow> Inl e
                          | Inr c2 \<Rightarrow> Inr (False, c2))))))"

text \<open>
  The driving loop of the harness (\<open>for line in file: cache1.check(address_bin)\<close>):
  the addresses are fed in order and the first exception ends the run.
\<close>

fun check_all :: "Cache \<Rightarrow> string list \<Rightarrow> error + (bool list \<times> Cache)" where
  "check_all c [] = Inr ([], c)"
| "check_all c (a # as) =
     (case check c a of Inl e \<Rightarrow> Inl e
      | Inr (r, c') \<Rightarrow>
         (case check_all c' as of Inl e \<Rightarrow> Inl e | Inr (rs, c'') \<Rightarrow> Inr (r # rs, c'')))"

text \<open>A 32-bit binary address: 32 characters, each \<open>0\<close> or \<open>1\<close>.\<close>

definition binary_address :: "string \<Rightarrow> bool" where
  "binary_address a \<longleftrightarrow> length a = 32 \<and> list_all binary_digit a"

subsection \<open>Auxiliary notions for the proofs\<close>

text \<open>
  The counters and the tags of the valid blocks of a set, in the order of the blocks.
\<close>

definition ranks :: "Block list \<Rightarrow> int list" where
  "ranks s = map lru_counter (filter valid s)"

definition held_tags :: "Block list \<Rightarrow> string list" where
  "held_tags s = map tag (filter valid s)"

text \<open>
  What one returning call of \<open>check\<close> does to the set it selects: the hit branch of
  \<open>lru_handling\<close>, or \<open>evictor\<close> followed by the miss branch (lemma
  \<open>check_unfold\<close> relates it to \<open>check\<close>).
\<close>

definition access_set :: "int \<Rightarrow> string \<Rightarrow> Block list \<Rightarrow> Block list" where
  "access_set A t s =
     (case find_hit t s of
        Some b \<Rightarrow> map (lru_hit A (lru_counter b)) s
      | None \<Rightarrow> map lru_miss
          (case overwrite_first (\<lambda>b. \<not> valid b) t A s of
             Some s' \<Rightarrow> s'
           | None \<Rightarrow> (case overwrite_first (\<lambda>b. lru_counter b = 0) t A s of
                        Some s' \<Rightarrow> s' | None \<Rightarrow> s)))"

text \<open>
  The invariant of one set: it has \<open>associativity\<close> blocks, invalid blocks carry
  negative counters, and the valid blocks carry pairwise different counters within the
  top of the range and pairwise different tags.
\<close>

definition set_ok :: "int \<Rightarrow> Block list \<Rightarrow> bool" where
  "set_ok A s \<longleftrightarrow>
     int (length s) = A \<and>
     (\<forall>b\<in>set s. \<not> valid b \<longrightarrow> lru_counter b < 0) \<and>
     distinct (ranks s) \<and>
     (\<forall>r\<in>set (ranks s). A - int (length (ranks s)) \<le> r \<and> r < A) \<and>
     distinct (held_tags s)"

text \<open>
  The invariant of the whole object: a positive associativity, non-negative field
  widths, at least \<open>2 ^ no_of_ind_bits\<close> sets, and every set in order.
\<close>

definition cache_ok :: "Cache \<Rightarrow> bool" where
  "cache_ok c \<longleftrightarrow>
     0 < associativity c \<and> 0 \<le> no_of_ind_bits c \<and> 0 \<le> no_of_offset_bits c \<and>
     2 ^ nat (no_of_ind_bits c) \<le> length (cache c) \<and>
     (\<forall>s\<in>set (cache c). set_ok (associativity c) s)"

subsection \<open>Reachable states\<close>

text \<open>
  The states of a \<open>Cache\<close> object over its life: the object as constructed from
  positive integers, and the object after each call of \<open>check\<close> that returns. A call
  that raises does so before it writes anything and adds no state.
\<close>

inductive reachable :: "Cache \<Rightarrow> bool" where
  construct: "0 < csize \<Longrightarrow> 0 < bsize \<Longrightarrow> 0 < assoc \<Longrightarrow>
     Cache_init csize bsize assoc = Inr c \<Longrightarrow> reachable c"
| access: "reachable c \<Longrightarrow> binary_address a \<Longrightarrow> check c a = Inr (r, c') \<Longrightarrow> reachable c'"

subsection \<open>Concrete objects for the examples\<close>

text \<open>\<open>Cache(2, 1, 2)\<close>: one set of two blocks, no index bits.\<close>

definition fully_associative_example :: Cache where
  "fully_associative_example =
     \<lparr>cache_size = 2, block_size = 1, associativity = 2, sets = 1, no_of_ind_bits = 0,
      no_of_offset_bits = 0, no_of_tag_bits = 32, hit_count = 0, miss_count = 0,
      cache = [[Block_init (replicate 32 CHR ''0'') False (- 1),
                Block_init (replicate 32 CHR ''0'') False (- 1)]]\<rparr>"

text \<open>
  \<open>Cache(4, 1, 2)\<close>: two sets of two blocks, one index bit, no offset bits, 31 tag
  bits; then the same object after a first access (tag X, set 0) and after a second one
  (tag Y, set 0).
\<close>

definition addr_X :: string where
  "addr_X = ''00000000000000000000000000000000''"

definition addr_Y :: string where
  "addr_Y = ''10000000000000000000000000000000''"

definition addr_Z :: string where
  "addr_Z = ''01000000000000000000000000000000''"

definition two_way_example :: Cache where
  "two_way_example =
     \<lparr>cache_size = 4, block_size = 1, associativity = 2, sets = 2, no_of_ind_bits = 1,
      no_of_offset_bits = 0, no_of_tag_bits = 31, hit_count = 0, miss_count = 0,
      cache = [[Block_init ''0000000000000000000000000000000'' False (- 1),
                Block_init ''0000000000000000000000000000000'' False (- 1)],
               [Block_init ''0000000000000000000000000000000'' False (- 1),
                Block_init ''0000000000000000000000000000000'' False (- 1)]]\<rparr>"

definition two_way_after_X :: Cache where
  "two_way_after_X =
     two_way_example\<lparr>miss_count := 1,
       cache := [[Block_init ''0000000000000000000000000000000'' True 1,
                  Block_init ''0000000000000000000000000000000'' False (- 2)],
                 [Block_init ''0000000000000000000000000000000'' False (- 1),
                  Block_init ''0000000000000000000000000000000'' False (- 1)]]\<rparr>"

definition two_way_after_XY :: Cache where
  "two_way_after_XY =
     two_way_example\<lparr>miss_count := 2,
       cache := [[Block_init ''0000000000000000000000000000000'' True 0,
                  Block_init ''1000000000000000000000000000000'' True 1],
                 [Block_init ''0000000000000000000000000000000'' False (- 1),
                  Block_init ''0000000000000000000000000000000'' False (- 1)]]\<rparr>"

section \<open>Properties of the primitives and of the loops\<close>

lemma floor_log2_le: "0 < n \<Longrightarrow> 2 ^ floor_log2 n \<le> n"
proof (induction n rule: floor_log2.induct)
  case (1 n)
  show ?case
  proof (cases "n < 2")
    case True
    with 1 show ?thesis by (simp add: floor_log2.simps)
  next
    case False
    then have "0 < n div 2" by simp
    with 1 False have "2 ^ floor_log2 (n div 2) \<le> n div 2" by simp
    then have "2 * 2 ^ floor_log2 (n div 2) \<le> 2 * (n div 2)" by simp
    also have "\<dots> \<le> n" by simp
    finally show ?thesis using False by (subst floor_log2.simps) simp
  qed
qed

lemma foldl_bits_bound:
  "foldl (\<lambda>acc ch. 2 * acc + (if ch = CHR ''1'' then 1 else 0)) (acc::nat) s
     < (acc + 1) * 2 ^ length s"
proof (induction s arbitrary: acc)
  case Nil
  show ?case by simp
next
  case (Cons ch s)
  let ?d = "(if ch = CHR ''1'' then 1 else 0) :: nat"
  have "foldl (\<lambda>acc ch. 2 * acc + (if ch = CHR ''1'' then 1 else 0)) (2 * acc + ?d) s
          < (2 * acc + ?d + 1) * 2 ^ length s"
    by (rule Cons.IH)
  also have "\<dots> \<le> (2 * acc + 2) * 2 ^ length s"
    by (rule mult_le_mono1) simp
  also have "\<dots> = (acc + 1) * 2 ^ length (ch # s)"
    by simp
  finally show ?case by simp
qed

lemma int_base2_bound: "int_base2 s = Inr n \<Longrightarrow> n < 2 ^ length s"
  using foldl_bits_bound [of 0 s] by (auto simp: int_base2_def split: if_splits)

lemma int_base2_Inr_iff:
  "(\<exists>n. int_base2 s = Inr n) \<longleftrightarrow> s \<noteq> [] \<and> list_all binary_digit s"
  by (auto simp: int_base2_def)

lemma int_base2_Inl: "int_base2 s = Inl e \<Longrightarrow> e = ValueError"
  by (auto simp: int_base2_def split: if_splits)

lemma py_slice_empty: "py_slice s a a = []"
  by (simp add: py_slice_def)

lemma length_py_slice: "0 \<le> k \<Longrightarrow> length (py_slice s a (a + k)) \<le> nat k"
  by (auto simp: py_slice_def py_bound_def Let_def)

lemma binary_py_slice: "list_all binary_digit s \<Longrightarrow> list_all binary_digit (py_slice s a b)"
  by (auto simp: py_slice_def Let_def list_all_iff dest: in_set_takeD in_set_dropD)

lemma find_hit_Some: "find_hit t s = Some b \<Longrightarrow> b \<in> set s \<and> tag b = t \<and> valid b"
  by (induction s) (auto split: if_splits)

lemma find_hit_None_iff: "find_hit t s = None \<longleftrightarrow> (\<forall>b\<in>set s. \<not> (tag b = t \<and> valid b))"
  by (induction s) auto

lemma overwrite_first_None_iff: "overwrite_first p t A s = None \<longleftrightarrow> (\<forall>b\<in>set s. \<not> p b)"
  by (induction s) auto

lemma overwrite_first_Some:
  "overwrite_first p t A s = Some s' \<Longrightarrow>
     \<exists>xs b ys. s = xs @ b # ys \<and> (\<forall>x\<in>set xs. \<not> p x) \<and> p b \<and>
       s' = xs @ b\<lparr>tag := t, valid := True, lru_counter := A\<rparr> # ys"
proof (induction s arbitrary: s')
  case Nil
  then show ?case by simp
next
  case (Cons a s)
  show ?case
  proof (cases "p a")
    case True
    with Cons.prems have "s' = a\<lparr>tag := t, valid := True, lru_counter := A\<rparr> # s" by simp
    with True show ?thesis by (intro exI [of _ "[]"] exI [of _ a] exI [of _ s]) simp
  next
    case False
    with Cons.prems obtain s'' where s'': "overwrite_first p t A s = Some s''" "s' = a # s''"
      by auto
    from Cons.IH [OF s''(1)] obtain xs b ys where
      "s = xs @ b # ys" "\<forall>x\<in>set xs. \<not> p x" "p b"
      "s'' = xs @ b\<lparr>tag := t, valid := True, lru_counter := A\<rparr> # ys" by blast
    with False s''(2) show ?thesis
      by (intro exI [of _ "a # xs"] exI [of _ b] exI [of _ ys]) simp
  qed
qed

subsection \<open>The invariant of one set\<close>

lemma ranks_append [simp]: "ranks (xs @ ys) = ranks xs @ ranks ys"
  by (simp add: ranks_def)

lemma ranks_Cons [simp]: "ranks (b # bs) = (if valid b then lru_counter b # ranks bs else ranks bs)"
  by (simp add: ranks_def)

lemma ranks_Nil [simp]: "ranks [] = []"
  by (simp add: ranks_def)

lemma held_tags_append [simp]: "held_tags (xs @ ys) = held_tags xs @ held_tags ys"
  by (simp add: held_tags_def)

lemma held_tags_Cons [simp]: "held_tags (b # bs) = (if valid b then tag b # held_tags bs else held_tags bs)"
  by (simp add: held_tags_def)

lemma held_tags_Nil [simp]: "held_tags [] = []"
  by (simp add: held_tags_def)

lemma ranks_map_lru_miss: "ranks (map lru_miss s) = map (\<lambda>r. r - 1) (ranks s)"
  by (induction s) (auto simp: lru_miss_def)

lemma held_tags_map_lru_miss: "held_tags (map lru_miss s) = held_tags s"
  by (induction s) (auto simp: lru_miss_def)

lemma ranks_map_lru_hit:
  "ranks (map (lru_hit A cur) s) =
     map (\<lambda>r. if r > cur then r - 1 else if r = cur then A - 1 else r) (ranks s)"
  by (induction s) (auto simp: lru_hit_def)

lemma held_tags_map_lru_hit: "held_tags (map (lru_hit A cur) s) = held_tags s"
  by (induction s) (auto simp: lru_hit_def)

lemma length_ranks_le: "length (ranks s) \<le> length s"
  by (simp add: ranks_def)

lemma length_ranks_held: "length (held_tags s) = length (ranks s)"
  by (simp add: ranks_def held_tags_def)

lemma ranks_all_valid: "\<forall>b\<in>set s. valid b \<Longrightarrow> ranks s = map lru_counter s"
  by (induction s) auto

lemma set_held_tags: "set (held_tags s) = {tag b |b. b \<in> set s \<and> valid b}"
  by (auto simp: held_tags_def)

lemma set_ranks: "set (ranks s) = {lru_counter b |b. b \<in> set s \<and> valid b}"
  by (auto simp: ranks_def)

text \<open>When the invariant holds the ranks of the valid blocks are exactly an interval.\<close>

lemma set_ok_ranks_eq:
  assumes "set_ok A s"
  shows "set (ranks s) = {A - int (length (ranks s)) ..< A}"
proof -
  let ?k = "length (ranks s)"
  from assms have d: "distinct (ranks s)"
    and b: "\<forall>r\<in>set (ranks s). A - int ?k \<le> r \<and> r < A"
    by (simp_all add: set_ok_def)
  from b have sub: "set (ranks s) \<subseteq> {A - int ?k ..< A}" by auto
  from d have "card (set (ranks s)) = ?k" by (rule distinct_card)
  moreover have "card {A - int ?k ..< A} = ?k" by simp
  ultimately show ?thesis using sub by (intro card_subset_eq) simp_all
qed


lemma find_hit_rank_in: "find_hit t s = Some b \<Longrightarrow> lru_counter b \<in> set (ranks s)"
  by (auto simp: set_ranks dest: find_hit_Some)

lemma find_hit_None_held: "find_hit t s = None \<longleftrightarrow> t \<notin> set (held_tags s)"
  by (auto simp: find_hit_None_iff set_held_tags)

lemma set_ok_hit:
  assumes ok: "set_ok A s" and hit: "find_hit t s = Some b"
  shows "set_ok A (map (lru_hit A (lru_counter b)) s)"
proof -
  let ?cur = "lru_counter b"
  let ?k = "length (ranks s)"
  let ?f = "\<lambda>r. if r > ?cur then r - 1 else if r = ?cur then A - 1 else r"
  from ok have len: "int (length s) = A"
    and inv: "\<forall>x\<in>set s. \<not> valid x \<longrightarrow> lru_counter x < 0"
    and d: "distinct (ranks s)"
    and bnd: "\<forall>r\<in>set (ranks s). A - int ?k \<le> r \<and> r < A"
    and dt: "distinct (held_tags s)"
    by (simp_all add: set_ok_def)
  from hit have cur_in: "?cur \<in> set (ranks s)" by (rule find_hit_rank_in)
  have "int ?k \<le> A" using length_ranks_le [of s] len by simp
  with cur_in bnd have cur0: "0 \<le> ?cur" and curA: "?cur < A" by force+
  have inj: "inj_on ?f (set (ranks s))"
    using bnd curA by (auto simp: inj_on_def split: if_splits)
  have 1: "\<forall>x\<in>set (map (lru_hit A ?cur) s). \<not> valid x \<longrightarrow> lru_counter x < 0"
    using inv cur0 by (auto simp: lru_hit_def)
  have 2: "distinct (ranks (map (lru_hit A ?cur) s))"
    using d inj by (simp add: ranks_map_lru_hit distinct_map)
  have 3: "\<forall>r\<in>set (ranks (map (lru_hit A ?cur) s)).
             A - int (length (ranks (map (lru_hit A ?cur) s))) \<le> r \<and> r < A"
    using bnd cur_in by (auto simp: ranks_map_lru_hit)
  show ?thesis
    unfolding set_ok_def using len 1 2 3 dt by (simp add: held_tags_map_lru_hit)
qed

lemma set_ok_fill:
  assumes ok: "set_ok A s" and miss: "find_hit t s = None"
    and s: "s = xs @ b # ys" and b: "\<not> valid b"
  shows "set_ok A (map lru_miss (xs @ b\<lparr>tag := t, valid := True, lru_counter := A\<rparr> # ys))"
proof -
  let ?k = "length (ranks s)"
  let ?s' = "map lru_miss (xs @ b\<lparr>tag := t, valid := True, lru_counter := A\<rparr> # ys)"
  from ok have len: "int (length s) = A"
    and inv: "\<forall>x\<in>set s. \<not> valid x \<longrightarrow> lru_counter x < 0"
    and d: "distinct (ranks s)"
    and bnd: "\<forall>r\<in>set (ranks s). A - int ?k \<le> r \<and> r < A"
    and dt: "distinct (held_tags s)"
    by (simp_all add: set_ok_def)
  from miss have tn: "t \<notin> set (held_tags s)" by (simp add: find_hit_None_held)
  have rs: "ranks s = ranks xs @ ranks ys" using s b by simp
  have rs': "ranks ?s' = map (\<lambda>r. r - 1) (ranks xs) @ (A - 1) # map (\<lambda>r. r - 1) (ranks ys)"
    by (simp add: ranks_map_lru_miss lru_miss_def)
  have hs: "held_tags s = held_tags xs @ held_tags ys" using s b by simp
  have hs': "held_tags ?s' = held_tags xs @ t # held_tags ys"
    by (simp add: held_tags_map_lru_miss lru_miss_def)
  have 0: "int (length ?s') = A" using len s by simp
  have 1: "\<forall>x\<in>set ?s'. \<not> valid x \<longrightarrow> lru_counter x < 0"
    using inv s by (auto simp: lru_miss_def)
  have 2: "distinct (ranks ?s')"
    using d bnd unfolding rs rs' by (auto simp: distinct_map inj_on_def)
  have 3: "\<forall>r\<in>set (ranks ?s'). A - int (length (ranks ?s')) \<le> r \<and> r < A"
  proof
    fix r assume "r \<in> set (ranks ?s')"
    then have "r = A - 1 \<or> (\<exists>q\<in>set (ranks s). r = q - 1)"
      unfolding rs rs' by auto
    moreover have "int (length (ranks ?s')) = int ?k + 1"
      unfolding rs rs' by simp
    ultimately show "A - int (length (ranks ?s')) \<le> r \<and> r < A"
      using bnd by auto
  qed
  have 4: "distinct (held_tags ?s')"
    using dt tn unfolding hs hs' by auto
  show ?thesis unfolding set_ok_def using 0 1 2 3 4 by blast
qed

lemma set_ok_evict:
  assumes ok: "set_ok A s" and miss: "find_hit t s = None"
    and s: "s = xs @ b # ys" and full: "\<forall>x\<in>set s. valid x" and b: "lru_counter b = 0"
  shows "set_ok A (map lru_miss (xs @ b\<lparr>tag := t, valid := True, lru_counter := A\<rparr> # ys))"
proof -
  let ?k = "length (ranks s)"
  let ?s' = "map lru_miss (xs @ b\<lparr>tag := t, valid := True, lru_counter := A\<rparr> # ys)"
  from ok have len: "int (length s) = A"
    and d: "distinct (ranks s)"
    and bnd: "\<forall>r\<in>set (ranks s). A - int ?k \<le> r \<and> r < A"
    and dt: "distinct (held_tags s)"
    by (simp_all add: set_ok_def)
  from miss have tn: "t \<notin> set (held_tags s)" by (simp add: find_hit_None_held)
  from full have k: "int ?k = A" using len by (simp add: ranks_all_valid)
  from len s have A0: "0 < A" by auto
  have rs: "ranks s = ranks xs @ 0 # ranks ys" using s b full by simp
  have rs': "ranks ?s' = map (\<lambda>r. r - 1) (ranks xs) @ (A - 1) # map (\<lambda>r. r - 1) (ranks ys)"
    by (simp add: ranks_map_lru_miss lru_miss_def)
  have hs: "held_tags s = held_tags xs @ tag b # held_tags ys" using s full by simp
  have hs': "held_tags ?s' = held_tags xs @ t # held_tags ys"
    by (simp add: held_tags_map_lru_miss lru_miss_def)
  have 0: "int (length ?s') = A" using len s by simp
  have 1: "\<forall>x\<in>set ?s'. \<not> valid x \<longrightarrow> lru_counter x < 0"
    using full s by (auto simp: lru_miss_def)
  have 2: "distinct (ranks ?s')"
    using d bnd unfolding rs rs' by (auto simp: distinct_map inj_on_def)
  have k': "int (length (ranks ?s')) = A" using k unfolding rs rs' by simp
  have pos: "1 \<le> r" if "r \<in> set (ranks xs) \<union> set (ranks ys)" for r
  proof -
    from that d have "r \<noteq> 0" unfolding rs by auto
    moreover from that bnd k have "0 \<le> r" unfolding rs by auto
    ultimately show ?thesis by simp
  qed
  have 3: "\<forall>r\<in>set (ranks ?s'). A - int (length (ranks ?s')) \<le> r \<and> r < A"
  proof
    fix r assume "r \<in> set (ranks ?s')"
    then have "r = A - 1 \<or> (\<exists>q\<in>set (ranks xs) \<union> set (ranks ys). r = q - 1)"
      unfolding rs' by auto
    moreover have "q < A" if "q \<in> set (ranks xs) \<union> set (ranks ys)" for q
      using that bnd unfolding rs by auto
    ultimately show "A - int (length (ranks ?s')) \<le> r \<and> r < A"
      unfolding k' using pos A0 by force
  qed
  have 4: "distinct (held_tags ?s')"
    using dt tn unfolding hs hs' by auto
  show ?thesis unfolding set_ok_def using 0 1 2 3 4 by blast
qed

lemma set_ok_full_has_lru0:
  assumes ok: "set_ok A s" and A: "0 < A" and full: "\<forall>x\<in>set s. valid x"
  shows "\<exists>b\<in>set s. lru_counter b = 0"
proof -
  from ok have "int (length s) = A" by (simp add: set_ok_def)
  with full have "int (length (ranks s)) = A" by (simp add: ranks_all_valid)
  with set_ok_ranks_eq [OF ok] have "set (ranks s) = {0 ..< A}" by simp
  with A have "0 \<in> set (ranks s)" by simp
  then show ?thesis by (auto simp: set_ranks)
qed

lemma set_ok_access_set:
  assumes ok: "set_ok A s" and A: "0 < A"
  shows "set_ok A (access_set A t s)"
proof (cases "find_hit t s")
  case (Some b)
  with set_ok_hit [OF ok Some] show ?thesis by (simp add: access_set_def)
next
  case None
  show ?thesis
  proof (cases "overwrite_first (\<lambda>b. \<not> valid b) t A s")
    case (Some s1)
    from overwrite_first_Some [OF Some] obtain xs b ys where
      "s = xs @ b # ys" "\<not> valid b"
      "s1 = xs @ b\<lparr>tag := t, valid := True, lru_counter := A\<rparr> # ys" by blast
    with set_ok_fill [OF ok None, of xs b ys] None Some show ?thesis
      by (simp add: access_set_def)
  next
    case noinv: None
    then have full: "\<forall>x\<in>set s. valid x" by (simp add: overwrite_first_None_iff)
    from set_ok_full_has_lru0 [OF ok A full]
    have "overwrite_first (\<lambda>b. lru_counter b = 0) t A s \<noteq> None"
      by (simp add: overwrite_first_None_iff)
    then obtain s1 where s1: "overwrite_first (\<lambda>b. lru_counter b = 0) t A s = Some s1" by blast
    from overwrite_first_Some [OF s1] obtain xs b ys where
      "s = xs @ b # ys" "lru_counter b = 0"
      "s1 = xs @ b\<lparr>tag := t, valid := True, lru_counter := A\<rparr> # ys" by blast
    with set_ok_evict [OF ok None _ full, of xs b ys] None noinv s1 show ?thesis
      by (simp add: access_set_def)
  qed
qed

subsection \<open>One call of \<open>check\<close> and the invariant of the object\<close>

lemma check_unfold:
  "check c a =
     (case extract_index c a of
        Inl e \<Rightarrow> Inl e
      | Inr i \<Rightarrow>
         (case extract_offset c a of
            Inl e \<Rightarrow> Inl e
          | Inr off \<Rightarrow>
              if length (cache c) \<le> i then Inl IndexError
              else if find_hit (extract_tag c a) (cache c ! i) \<noteq> None
              then Inr (True, c\<lparr>hit_count := hit_count c + 1,
                     cache := (cache c)[i := access_set (associativity c) (extract_tag c a) (cache c ! i)]\<rparr>)
              else Inr (False, c\<lparr>miss_count := miss_count c + 1,
                     cache := (cache c)[i := access_set (associativity c) (extract_tag c a) (cache c ! i)]\<rparr>)))"
  by (auto simp: check_def lru_handling_def evictor_def access_set_def
           split: sum.splits option.splits)

lemma extract_index_bound:
  assumes "0 \<le> no_of_ind_bits c" and "extract_index c a = Inr i"
  shows "i < 2 ^ nat (no_of_ind_bits c)"
proof -
  let ?sl = "py_slice a (no_of_tag_bits c) (no_of_tag_bits c + no_of_ind_bits c)"
  from assms(2) have "i < 2 ^ length ?sl"
    unfolding extract_index_def by (rule int_base2_bound)
  also have "(2::nat) ^ length ?sl \<le> 2 ^ nat (no_of_ind_bits c)"
    using length_py_slice [OF assms(1)] by (intro power_increasing) simp_all
  finally show ?thesis .
qed

lemma extract_offset_total:
  assumes "0 \<le> no_of_offset_bits c" and "binary_address a"
  shows "\<exists>off. extract_offset c a = Inr off"
proof -
  let ?sl = "py_slice a (- no_of_offset_bits c) (int (length a))"
  from assms have "?sl \<noteq> []"
    by (auto simp: py_slice_def py_bound_def binary_address_def Let_def)
  moreover from assms(2) have "list_all binary_digit ?sl"
    by (simp add: binary_address_def binary_py_slice)
  ultimately show ?thesis
    unfolding extract_offset_def using int_base2_Inr_iff [of ?sl] by simp
qed

lemma check_returns:
  assumes ok: "cache_ok c" and a: "binary_address a" and i: "extract_index c a = Inr i"
  shows "i < length (cache c)"
    and "\<exists>c'. check c a = Inr (find_hit (extract_tag c a) (cache c ! i) \<noteq> None, c')"
proof -
  from ok have ib: "0 \<le> no_of_ind_bits c" and ob: "0 \<le> no_of_offset_bits c"
    and len: "2 ^ nat (no_of_ind_bits c) \<le> length (cache c)"
    by (simp_all add: cache_ok_def)
  from extract_index_bound [OF ib i] len show lt: "i < length (cache c)" by simp
  from extract_offset_total [OF ob a] obtain off where "extract_offset c a = Inr off" ..
  with i lt show "\<exists>c'. check c a = Inr (find_hit (extract_tag c a) (cache c ! i) \<noteq> None, c')"
    by (simp add: check_unfold)
qed

lemma check_InrD:
  assumes "check c a = Inr (r, c')"
  obtains i where "extract_index c a = Inr i" and "i < length (cache c)"
    and "r \<longleftrightarrow> find_hit (extract_tag c a) (cache c ! i) \<noteq> None"
    and "c' = (if r then c\<lparr>hit_count := hit_count c + 1,
                     cache := (cache c)[i := access_set (associativity c) (extract_tag c a) (cache c ! i)]\<rparr>
               else c\<lparr>miss_count := miss_count c + 1,
                     cache := (cache c)[i := access_set (associativity c) (extract_tag c a) (cache c ! i)]\<rparr>)"
  using assms by (auto simp: check_unfold split: sum.splits if_splits)

lemma Cache_init_InrD:
  assumes "Cache_init csize bsize assoc = Inr c" and "0 < bsize" and "0 < assoc"
  shows "0 < csize div (bsize * assoc)"
    and "c = \<lparr>cache_size = csize, block_size = bsize, associativity = assoc,
              sets = csize div (bsize * assoc),
              no_of_ind_bits = int (floor_log2 (nat (csize div (bsize * assoc)))),
              no_of_offset_bits = int (floor_log2 (nat bsize)),
              no_of_tag_bits = 32 - int (floor_log2 (nat (csize div (bsize * assoc))))
                                 - int (floor_log2 (nat bsize)),
              hit_count = 0, miss_count = 0,
              cache = replicate (nat (csize div (bsize * assoc))) (replicate (nat assoc)
                (Block_init (replicate (nat (32 - int (floor_log2 (nat (csize div (bsize * assoc))))
                                 - int (floor_log2 (nat bsize)))) CHR ''0'') False (- 1)))\<rparr>"
  using assms by (auto simp: Cache_init_def int_log2_def Let_def split: if_splits)

lemma set_ok_fresh: "0 \<le> A \<Longrightarrow> set_ok A (replicate (nat A) (Block_init t False (- 1)))"
  by (simp add: set_ok_def Block_init_def ranks_def held_tags_def)

lemma cache_ok_init:
  assumes "Cache_init csize bsize assoc = Inr c" and "0 < bsize" and "0 < assoc"
  shows "cache_ok c"
proof -
  let ?n = "csize div (bsize * assoc)"
  note d = Cache_init_InrD [OF assms]
  from d(1) have "2 ^ floor_log2 (nat ?n) \<le> nat ?n" by (intro floor_log2_le) simp
  moreover have "set_ok assoc (replicate (nat assoc) (Block_init t False (- 1)))" for t
    using assms(3) by (intro set_ok_fresh) simp
  ultimately show ?thesis
    unfolding cache_ok_def using assms(3) by (subst (1 2 3 4 5 6 7) d(2)) simp
qed

lemma cache_ok_check:
  assumes ok: "cache_ok c" and ch: "check c a = Inr (r, c')"
  shows "cache_ok c'"
proof -
  from ch obtain i where i: "i < length (cache c)"
    and c': "c' = (if r then c\<lparr>hit_count := hit_count c + 1,
                     cache := (cache c)[i := access_set (associativity c) (extract_tag c a) (cache c ! i)]\<rparr>
               else c\<lparr>miss_count := miss_count c + 1,
                     cache := (cache c)[i := access_set (associativity c) (extract_tag c a) (cache c ! i)]\<rparr>)"
    by (rule check_InrD)
  from ok i have "set_ok (associativity c) (cache c ! i)" by (simp add: cache_ok_def)
  with ok have "set_ok (associativity c) (access_set (associativity c) (extract_tag c a) (cache c ! i))"
    by (intro set_ok_access_set) (simp_all add: cache_ok_def)
  with ok show ?thesis
    unfolding c' cache_ok_def by (auto dest!: set_update_subset_insert [THEN subsetD])
qed

lemma reachable_cache_ok: "reachable c \<Longrightarrow> cache_ok c"
  by (induction rule: reachable.induct) (auto intro: cache_ok_init cache_ok_check)

subsection \<open>Evaluation of small logarithms\<close>

lemma floor_log2_Suc_0: "floor_log2 (Suc 0) = 0"
  by (simp add: floor_log2.simps)

lemma floor_log2_2: "floor_log2 2 = 1"
  by (simp add: floor_log2.simps)

lemma replicate_2: "replicate 2 x = [x, x]"
  by (simp add: numeral_2_eq_2)

lemma extract_index_no_bits: "no_of_ind_bits c = 0 \<Longrightarrow> extract_index c a = Inl ValueError"
  by (simp add: extract_index_def py_slice_empty int_base2_def)

lemma check_no_index_bits: "no_of_ind_bits c = 0 \<Longrightarrow> check c a = Inl ValueError"
  by (simp add: check_def extract_index_no_bits)

lemma Cache_init_fields:
  assumes "Cache_init csize bsize assoc = Inr c"
  shows "sets c = csize div (bsize * assoc)" and "0 < sets c"
    and "no_of_ind_bits c = int (floor_log2 (nat (sets c)))"
    and "hit_count c = 0" and "miss_count c = 0"
    and "associativity c = assoc"
  using assms
  by (auto simp: Cache_init_def int_log2_def Let_def split: if_splits)

subsection \<open>Arithmetic of the number of sets\<close>

lemma div_mult_le_0_iff:
  fixes c b a :: int
  assumes "0 < c" "0 < b" "0 < a"
  shows "c div (b * a) \<le> 0 \<longleftrightarrow> c div b < a"
proof -
  have "c div (b * a) = c div b div a" using assms by (simp add: zdiv_zmult2_eq)
  moreover have "0 \<le> c div b" using assms by (simp add: pos_imp_zdiv_nonneg_iff)
  moreover have "0 \<le> c div b div a" using assms \<open>0 \<le> c div b\<close> by (simp add: pos_imp_zdiv_nonneg_iff)
  ultimately show ?thesis using assms(3)
    by (metis div_pos_pos_trivial int_div_less_self linorder_not_less nonneg1_imp_zdiv_pos_iff order_antisym_conv)
qed

subsection \<open>Evaluation on the concrete objects\<close>

lemmas eval_defs =
  extract_index_def extract_offset_def extract_tag_def py_slice_def py_bound_def
  int_base2_def binary_digit_def Block_init_def access_set_def lru_miss_def lru_hit_def
  addr_X_def addr_Y_def addr_Z_def

lemma replicate_31: "replicate 31 x = [x, x, x, x, x, x, x, x, x, x, x, x, x, x, x, x,
    x, x, x, x, x, x, x, x, x, x, x, x, x, x, x]"
  by (simp add: eval_nat_numeral)

lemma Cache_init_4_1_2: "Cache_init 4 1 2 = Inr two_way_example"
  by (simp add: Cache_init_def int_log2_def floor_log2_Suc_0 floor_log2_2
        two_way_example_def replicate_2 replicate_31)

lemma binary_address_examples:
  "binary_address addr_X" "binary_address addr_Y" "binary_address addr_Z"
  by (simp_all add: binary_address_def binary_digit_def addr_X_def addr_Y_def addr_Z_def)

lemma extract_index_examples:
  "extract_index two_way_example addr_X = Inr 0"
  "extract_index two_way_example addr_Y = Inr 0"
  "extract_index two_way_example addr_Z = Inr 0"
  by (simp_all add: two_way_example_def eval_defs)

lemma extract_tag_examples:
  "extract_tag two_way_example addr_X = ''0000000000000000000000000000000''"
  "extract_tag two_way_example addr_Y = ''1000000000000000000000000000000''"
  "extract_tag two_way_example addr_Z = ''0100000000000000000000000000000''"
  by (simp_all add: two_way_example_def eval_defs)

lemma check_two_way_X: "check two_way_example addr_X = Inr (False, two_way_after_X)"
  by (simp add: check_unfold two_way_example_def two_way_after_X_def eval_defs)

lemma check_two_way_Y: "check two_way_after_X addr_Y = Inr (False, two_way_after_XY)"
  by (simp add: check_unfold two_way_example_def two_way_after_X_def two_way_after_XY_def eval_defs)

lemma reachable_two_way_example: "reachable two_way_example"
  by (rule reachable.construct [OF _ _ _ Cache_init_4_1_2]) simp_all

lemma reachable_two_way_after_X: "reachable two_way_after_X"
  by (rule reachable.access [OF reachable_two_way_example binary_address_examples(1) check_two_way_X])

lemma reachable_two_way_after_XY: "reachable two_way_after_XY"
  by (rule reachable.access [OF reachable_two_way_after_X binary_address_examples(2) check_two_way_Y])

subsection \<open>What one access does to the tags of a set\<close>

lemma lru_miss_fields [simp]:
  "valid (lru_miss b) = valid b" "tag (lru_miss b) = tag b"
  "lru_counter (lru_miss b) = lru_counter b - 1"
  by (simp_all add: lru_miss_def)

lemma lru_hit_fields [simp]:
  "valid (lru_hit A cur b) = valid b" "tag (lru_hit A cur b) = tag b"
  by (simp_all add: lru_hit_def)

lemma access_set_hit:
  "find_hit t s = Some b \<Longrightarrow> access_set A t s = map (lru_hit A (lru_counter b)) s"
  by (simp add: access_set_def)

lemma access_set_fill:
  assumes "find_hit t s = None" and "\<exists>b\<in>set s. \<not> valid b"
  obtains xs b ys where "s = xs @ b # ys" and "\<forall>x\<in>set xs. valid x" and "\<not> valid b"
    and "access_set A t s = map lru_miss (xs @ b\<lparr>tag := t, valid := True, lru_counter := A\<rparr> # ys)"
proof -
  from assms(2) have "overwrite_first (\<lambda>b. \<not> valid b) t A s \<noteq> None"
    by (simp add: overwrite_first_None_iff)
  then obtain s1 where s1: "overwrite_first (\<lambda>b. \<not> valid b) t A s = Some s1" by blast
  from overwrite_first_Some [OF s1] obtain xs b ys where
    "s = xs @ b # ys" "\<forall>x\<in>set xs. \<not> \<not> valid x" "\<not> valid b"
    "s1 = xs @ b\<lparr>tag := t, valid := True, lru_counter := A\<rparr> # ys" by blast
  with assms(1) s1 that show ?thesis by (simp add: access_set_def)
qed

lemma access_set_evict:
  assumes "find_hit t s = None" and "\<forall>b\<in>set s. valid b" and "\<exists>b\<in>set s. lru_counter b = 0"
  obtains xs b ys where "s = xs @ b # ys" and "\<forall>x\<in>set xs. lru_counter x \<noteq> 0"
    and "lru_counter b = 0"
    and "access_set A t s = map lru_miss (xs @ b\<lparr>tag := t, valid := True, lru_counter := A\<rparr> # ys)"
proof -
  from assms(2) have n: "overwrite_first (\<lambda>b. \<not> valid b) t A s = None"
    by (simp add: overwrite_first_None_iff)
  from assms(3) have "overwrite_first (\<lambda>b. lru_counter b = 0) t A s \<noteq> None"
    by (simp add: overwrite_first_None_iff)
  then obtain s1 where s1: "overwrite_first (\<lambda>b. lru_counter b = 0) t A s = Some s1" by blast
  from overwrite_first_Some [OF s1] obtain xs b ys where
    "s = xs @ b # ys" "\<forall>x\<in>set xs. lru_counter x \<noteq> 0" "lru_counter b = 0"
    "s1 = xs @ b\<lparr>tag := t, valid := True, lru_counter := A\<rparr> # ys" by blast
  with assms(1) n s1 that show ?thesis by (simp add: access_set_def)
qed

lemma held_tags_access_hit:
  "find_hit t s \<noteq> None \<Longrightarrow> held_tags (access_set A t s) = held_tags s"
  by (auto simp: access_set_hit held_tags_map_lru_hit)

lemma held_tags_access_fill:
  assumes "find_hit t s = None" and "\<exists>b\<in>set s. \<not> valid b"
  shows "set (held_tags (access_set A t s)) = insert t (set (held_tags s))"
proof -
  from assms obtain xs b ys where "s = xs @ b # ys" "\<not> valid b"
    "access_set A t s = map lru_miss (xs @ b\<lparr>tag := t, valid := True, lru_counter := A\<rparr> # ys)"
    by (rule access_set_fill)
  then show ?thesis by (simp add: held_tags_map_lru_miss)
qed

lemma held_tags_access_subset:
  "set (held_tags (access_set A t s)) \<subseteq> insert t (set (held_tags s))"
proof (cases "find_hit t s")
  case (Some b)
  then show ?thesis by (auto simp: held_tags_access_hit)
next
  case None
  have *: "set (held_tags (map lru_miss s1)) \<subseteq> insert t (set (held_tags s))"
    if "overwrite_first p t A s = Some s1" for p s1
  proof -
    from overwrite_first_Some [OF that] obtain xs b ys where
      "s = xs @ b # ys" "s1 = xs @ b\<lparr>tag := t, valid := True, lru_counter := A\<rparr> # ys" by blast
    then show ?thesis by (auto simp: held_tags_map_lru_miss)
  qed
  show ?thesis using None *
    by (auto simp: access_set_def held_tags_map_lru_miss split: option.splits)
qed

lemma held_tags_access_in:
  assumes ok: "set_ok A s" and A: "0 < A"
  shows "t \<in> set (held_tags (access_set A t s))"
proof (cases "find_hit t s")
  case (Some b)
  then have "t \<in> set (held_tags s)" using find_hit_None_held [of t s] by simp
  with Some show ?thesis by (simp add: held_tags_access_hit)
next
  case None
  show ?thesis
  proof (cases "\<exists>b\<in>set s. \<not> valid b")
    case True
    with None show ?thesis by (simp add: held_tags_access_fill)
  next
    case False
    then have full: "\<forall>b\<in>set s. valid b" by simp
    from None full set_ok_full_has_lru0 [OF ok A full] obtain xs b ys where
      "access_set A t s = map lru_miss (xs @ b\<lparr>tag := t, valid := True, lru_counter := A\<rparr> # ys)"
      by (rule access_set_evict)
    then show ?thesis by (simp add: held_tags_map_lru_miss)
  qed
qed

text \<open>A hit, or a miss in a set with an invalid block, leaves every valid block in place.\<close>

lemma list_all2_keep_refl: "list_all2 (\<lambda>b b'. valid b \<longrightarrow> valid b' \<and> tag b' = tag b) xs (map lru_miss xs)"
  by (induction xs) auto

lemma access_set_keeps_valid:
  assumes "find_hit t s \<noteq> None \<or> (\<exists>b\<in>set s. \<not> valid b)"
  shows "list_all2 (\<lambda>b b'. valid b \<longrightarrow> valid b' \<and> tag b' = tag b) s (access_set A t s)"
proof (cases "find_hit t s")
  case (Some b)
  have "list_all2 (\<lambda>b b'. valid b \<longrightarrow> valid b' \<and> tag b' = tag b) s (map (lru_hit A cur) s)" for cur
    by (induction s) auto
  with Some show ?thesis by (simp add: access_set_hit)
next
  case None
  with assms have "\<exists>b\<in>set s. \<not> valid b" by simp
  with None obtain xs b ys where s: "s = xs @ b # ys" and b: "\<not> valid b"
    and a: "access_set A t s = map lru_miss (xs @ b\<lparr>tag := t, valid := True, lru_counter := A\<rparr> # ys)"
    by (rule access_set_fill)
  have "list_all2 (\<lambda>b b'. valid b \<longrightarrow> valid b' \<and> tag b' = tag b) (xs @ b # ys)
          (map lru_miss xs @ lru_miss (b\<lparr>tag := t, valid := True, lru_counter := A\<rparr>) # map lru_miss ys)"
    using b by (intro list_all2_appendI list_all2_keep_refl list_all2_Cons [THEN iffD2] conjI) simp
  then show ?thesis unfolding a by (simp add: s)
qed

lemma access_set_fills_invalid:
  assumes "find_hit t s = None" and "\<exists>b\<in>set s. \<not> valid b"
  shows "\<exists>j<length s. \<not> valid (s ! j) \<and> valid (access_set A t s ! j) \<and> tag (access_set A t s ! j) = t"
proof -
  from assms obtain xs b ys where s: "s = xs @ b # ys" and b: "\<not> valid b"
    and a: "access_set A t s = map lru_miss (xs @ b\<lparr>tag := t, valid := True, lru_counter := A\<rparr> # ys)"
    by (rule access_set_fill)
  have "length xs < length s" using s by simp
  moreover have "s ! length xs = b" using s by simp
  moreover have "access_set A t s ! length xs = lru_miss (b\<lparr>tag := t, valid := True, lru_counter := A\<rparr>)"
    unfolding a by (simp add: nth_append)
  ultimately show ?thesis using b by (intro exI [of _ "length xs"]) (simp add: lru_miss_def)
qed

lemma length_access_set: "set_ok A s \<Longrightarrow> 0 < A \<Longrightarrow> length (access_set A t s) = length s"
  using set_ok_access_set [of A s t] by (simp add: set_ok_def)

lemma set_ok_has_invalid:
  assumes "set_ok A s" and "int (length (held_tags s)) < A"
  shows "\<exists>b\<in>set s. \<not> valid b"
proof (rule ccontr)
  assume "\<not> (\<exists>b\<in>set s. \<not> valid b)"
  then have "ranks s = map lru_counter s" by (intro ranks_all_valid) simp
  then have "length (held_tags s) = length s" by (simp add: length_ranks_held)
  with assms show False by (simp add: set_ok_def)
qed

subsection \<open>Facts about reachable states\<close>

lemma distinct_map_filter_one:
  "distinct (map f xs) \<Longrightarrow> x \<in> set xs \<Longrightarrow> length (filter (\<lambda>y. f y = f x) xs) = 1"
proof (induction xs)
  case Nil
  then show ?case by simp
next
  case (Cons a xs)
  show ?case
  proof (cases "f a = f x")
    case True
    with Cons.prems(1) have "f x \<notin> f ` set xs" by simp
    then have "\<forall>y\<in>set xs. f y \<noteq> f x" by (metis imageI)
    then have "filter (\<lambda>y. f y = f x) xs = []" by (simp add: filter_empty_conv)
    with True show ?thesis by simp
  next
    case False
    with Cons.prems have "x \<in> set xs" by auto
    with Cons.IH Cons.prems(1) False show ?thesis by simp
  qed
qed

lemma reachable_set_ok:
  "reachable c \<Longrightarrow> s \<in> set (cache c) \<Longrightarrow> set_ok (associativity c) s"
  by (drule reachable_cache_ok) (simp add: cache_ok_def)

section \<open>The claims\<close>

text \<open>
  C10. In a cache constructed with one set (a fully associative cache) the index field
  is empty: \<open>no_of_ind_bits\<close> is 0, \<open>extract_index\<close> parses the empty string and
  raises \<open>ValueError\<close>, and so does every call of \<open>check\<close>, whatever the address.
\<close>

theorem fully_associative_check_raises:
  assumes "Cache_init csize bsize assoc = Inr c" and "sets c = 1"
  shows "no_of_ind_bits c = 0 \<and> extract_index c a = Inl ValueError \<and> check c a = Inl ValueError"
proof -
  from Cache_init_fields(3) [OF assms(1)] assms(2) have "no_of_ind_bits c = 0"
    by (simp add: floor_log2_Suc_0)
  then show ?thesis by (simp add: extract_index_no_bits check_no_index_bits)
qed

lemma Cache_init_2_1_2: "Cache_init 2 1 2 = Inr fully_associative_example"
  by (simp add: Cache_init_def int_log2_def floor_log2_Suc_0 fully_associative_example_def replicate_2)

theorem fully_associative_check_raises_witness:
  "Cache_init 2 1 2 = Inr fully_associative_example \<and> sets fully_associative_example = 1 \<and>
   check fully_associative_example (replicate 32 CHR ''1'') = Inl ValueError"
proof -
  have s: "sets fully_associative_example = 1" by (simp add: fully_associative_example_def)
  from fully_associative_check_raises [OF Cache_init_2_1_2 s] Cache_init_2_1_2 s
  show ?thesis by simp
qed


text \<open>
  C3, as the code has it. \<open>Cache.__init__\<close> validates nothing. With positive integer
  arguments it fails exactly when the associativity exceeds
  \<open>cache_size // block_size\<close>: the number of sets is then 0 and \<open>log2(0)\<close> raises
  \<open>ValueError\<close>. Every other configuration of positive integers is accepted, whether
  or not the sizes and the number of sets are powers of two.
\<close>

theorem Cache_init_fails_iff:
  assumes "0 < csize" and "0 < bsize" and "0 < assoc"
  shows "(isl (Cache_init csize bsize assoc) \<longleftrightarrow> csize div bsize < assoc) \<and>
         (csize div bsize < assoc \<longrightarrow> Cache_init csize bsize assoc = Inl ValueError)"
  using assms div_mult_le_0_iff [OF assms]
  by (auto simp: Cache_init_def int_log2_def Let_def)

text \<open>
  C3 as stated fails: construction succeeds with a cache size that is no power of two
  (3 bytes), with a block size that is no power of two (3 bytes), and with sizes that
  are powers of two but 5 sets.
\<close>

theorem Cache_init_accepts_non_powers_of_two:
  "\<not> isl (Cache_init 3 1 1) \<and> \<not> isl (Cache_init 4 3 1) \<and> \<not> isl (Cache_init 16 1 3)"
  by (simp add: Cache_init_def int_log2_def)

theorem Cache_init_fails_iff_witness:
  "(0::int) < 3 \<and> \<not> isl (Cache_init 3 1 1) \<and> Cache_init 4 1 5 = Inl ValueError"
  using Cache_init_fails_iff [of 3 1 1] Cache_init_fails_iff [of 4 1 5] by simp

text \<open>
  C2. In every reachable state and every set, the counters of the valid blocks are
  pairwise different and are exactly the \<open>k\<close> integers that end at
  \<open>associativity - 1\<close>, where \<open>k\<close> is the number of valid blocks. When all blocks of
  the set are valid the counters are therefore a permutation of
  \<open>0 .. associativity - 1\<close>, exactly one block has the counter 0, and the second loop of
  \<open>evictor\<close> finds a block to overwrite.
\<close>

theorem lru_counters_contiguous:
  assumes "reachable c" and "s \<in> set (cache c)"
  shows "distinct (map lru_counter (filter valid s)) \<and>
         set (map lru_counter (filter valid s)) =
           {associativity c - int (length (filter valid s)) ..< associativity c} \<and>
         (list_all valid s \<longrightarrow>
            distinct (map lru_counter s) \<and>
            set (map lru_counter s) = {0 ..< associativity c} \<and>
            length (filter (\<lambda>b. lru_counter b = 0) s) = 1 \<and>
            overwrite_first (\<lambda>b. lru_counter b = 0) t (associativity c) s \<noteq> None)"
proof -
  let ?A = "associativity c"
  from assms have ok: "set_ok ?A s" by (rule reachable_set_ok)
  from assms(1) have A: "0 < ?A" by (auto dest: reachable_cache_ok simp: cache_ok_def)
  from ok have d: "distinct (ranks s)" by (simp add: set_ok_def)
  have r: "set (ranks s) = {?A - int (length (ranks s)) ..< ?A}"
    using ok by (rule set_ok_ranks_eq)
  have full: "distinct (map lru_counter s) \<and> set (map lru_counter s) = {0 ..< ?A} \<and>
      length (filter (\<lambda>b. lru_counter b = 0) s) = 1 \<and>
      overwrite_first (\<lambda>b. lru_counter b = 0) t ?A s \<noteq> None" if "list_all valid s"
  proof -
    from that have v: "\<forall>b\<in>set s. valid b" by (simp add: list_all_iff)
    then have rs: "ranks s = map lru_counter s" by (rule ranks_all_valid)
    from ok have "int (length s) = ?A" by (simp add: set_ok_def)
    with r rs have s0: "set (map lru_counter s) = {0 ..< ?A}" by simp
    from d rs have ds: "distinct (map lru_counter s)" by simp
    from set_ok_full_has_lru0 [OF ok A v] obtain b where b: "b \<in> set s" "lru_counter b = 0"
      by blast
    from distinct_map_filter_one [OF ds b(1)] b(2)
    have "length (filter (\<lambda>y. lru_counter y = 0) s) = 1" by simp
    moreover from b have "overwrite_first (\<lambda>b. lru_counter b = 0) t ?A s \<noteq> None"
      by (auto simp: overwrite_first_None_iff)
    ultimately show ?thesis using ds s0 by simp
  qed
  from d r full show ?thesis by (simp add: ranks_def)
qed

theorem lru_counters_contiguous_witness:
  "reachable two_way_after_XY \<and> cache two_way_after_XY ! 0 \<in> set (cache two_way_after_XY) \<and>
   list_all valid (cache two_way_after_XY ! 0) \<and>
   set (map lru_counter (cache two_way_after_XY ! 0)) = {0 ..< 2} \<and>
   length (filter (\<lambda>b. lru_counter b = 0) (cache two_way_after_XY ! 0)) = 1"
proof -
  have m: "cache two_way_after_XY ! 0 \<in> set (cache two_way_after_XY)"
    by (simp add: two_way_after_XY_def two_way_example_def)
  have v: "list_all valid (cache two_way_after_XY ! 0)"
    by (simp add: two_way_after_XY_def two_way_example_def Block_init_def)
  have a: "associativity two_way_after_XY = 2"
    by (simp add: two_way_after_XY_def two_way_example_def)
  from lru_counters_contiguous [OF reachable_two_way_after_XY m] v a
  show ?thesis using reachable_two_way_after_XY m by simp
qed

text \<open>
  C9, as the code has it. In every reachable state the counter of a valid block lies in
  \<open>0 .. associativity - 1\<close>, and the counter of a block that is not valid is negative:
  it is \<open>-1\<close> at construction and goes down by one at every miss in its set.
\<close>

theorem lru_counter_range:
  assumes "reachable c" and "s \<in> set (cache c)" and "b \<in> set s"
  shows "(valid b \<longrightarrow> 0 \<le> lru_counter b \<and> lru_counter b \<le> associativity c - 1) \<and>
         (\<not> valid b \<longrightarrow> lru_counter b < 0)"
proof -
  let ?A = "associativity c"
  from assms(1,2) have ok: "set_ok ?A s" by (rule reachable_set_ok)
  then have inv: "\<not> valid b \<longrightarrow> lru_counter b < 0" using assms(3) by (simp add: set_ok_def)
  have "0 \<le> lru_counter b \<and> lru_counter b \<le> ?A - 1" if "valid b"
  proof -
    from that assms(3) have "lru_counter b \<in> set (ranks s)" by (auto simp: set_ranks)
    with ok have "?A - int (length (ranks s)) \<le> lru_counter b" "lru_counter b < ?A"
      by (simp_all add: set_ok_def)
    moreover from ok have "int (length (ranks s)) \<le> ?A"
      using length_ranks_le [of s] by (simp add: set_ok_def)
    ultimately show ?thesis by simp
  qed
  with inv show ?thesis by simp
qed

theorem lru_counter_range_witness:
  "reachable two_way_after_X \<and>
   valid (cache two_way_after_X ! 0 ! 0) \<and> lru_counter (cache two_way_after_X ! 0 ! 0) = 1 \<and>
   \<not> valid (cache two_way_after_X ! 0 ! 1) \<and> lru_counter (cache two_way_after_X ! 0 ! 1) < 0"
proof -
  have m: "cache two_way_after_X ! 0 \<in> set (cache two_way_after_X)"
    and b0: "cache two_way_after_X ! 0 ! 0 \<in> set (cache two_way_after_X ! 0)"
    and b1: "cache two_way_after_X ! 0 ! 1 \<in> set (cache two_way_after_X ! 0)"
    by (simp_all add: two_way_after_X_def two_way_example_def)
  have v: "valid (cache two_way_after_X ! 0 ! 0)" "\<not> valid (cache two_way_after_X ! 0 ! 1)"
    "lru_counter (cache two_way_after_X ! 0 ! 0) = 1"
    by (simp_all add: two_way_after_X_def two_way_example_def Block_init_def)
  from lru_counter_range [OF reachable_two_way_after_X m b0]
    lru_counter_range [OF reachable_two_way_after_X m b1] v
  show ?thesis using reachable_two_way_after_X by simp
qed

text \<open>
  C9 as stated fails at construction: every block of a fresh \<open>Cache(4, 1, 2)\<close> carries
  the counter \<open>-1\<close>, which is outside \<open>0 .. associativity\<close>.
\<close>

theorem fresh_lru_counter_negative:
  "map_sum id (\<lambda>c. map (map lru_counter) (cache c)) (Cache_init 4 1 2)
     = Inr [[- 1, - 1], [- 1, - 1]]"
  by (simp add: Cache_init_4_1_2 two_way_example_def Block_init_def)

end
